theory Spec2Isabelle
  imports Complex_Main "HOL-Library.Word" "HOL-Library.Multiset"
begin

unbundle bit_operations_syntax

section \<open>Bytes, exceptions and the Python built-ins used by the framing code\<close>

text \<open>
  The program is \<^verbatim>\<open>pypaperbak/app.py\<close> (Python 3). A \<^verbatim>\<open>bytes\<close> object is a list of
  8-bit words, a Python \<^verbatim>\<open>int\<close> is an \<open>int\<close>. Every exception the modelled code can raise
  is a value of \<open>exn\<close>: \<open>UnframeError\<close> is the program's own exception class and carries
  its message, the other four are raised by the interpreter (\<^verbatim>\<open>bindata[0]\<close> on empty
  input, \<^verbatim>\<open>int.to_bytes\<close> out of range, \<^verbatim>\<open>/\<close> by zero, \<^verbatim>\<open>read\<close> with a length
  below \<open>-1\<close>).
\<close>

type_synonym byte = "8 word"
type_synonym bytes = "byte list"

datatype exn =
  UnframeError string | IndexError | OverflowError | ZeroDivisionError | ValueError

text \<open>
  \<^verbatim>\<open>n.to_bytes(length, 'big')\<close>: the \<open>length\<close> base-256 digits of \<open>n\<close>, most significant
  first; \<^verbatim>\<open>OverflowError\<close> when \<open>n\<close> is negative or does not fit.
\<close>

fun be_digits :: "nat \<Rightarrow> int \<Rightarrow> bytes" where
  "be_digits 0 n = []"
| "be_digits (Suc k) n = be_digits k (n div 256) @ [word_of_int (n mod 256)]"

definition to_bytes_big :: "int \<Rightarrow> nat \<Rightarrow> exn + bytes" where
  "to_bytes_big n len =
     (if n < 0 \<or> 256 ^ len \<le> n then Inl OverflowError else Inr (be_digits len n))"

text \<open>\<^verbatim>\<open>int.from_bytes(bs, 'big')\<close>; the empty sequence gives 0.\<close>

definition from_bytes_big :: "bytes \<Rightarrow> int" where
  "from_bytes_big bs = foldl (\<lambda>acc b. acc * 256 + uint b) 0 bs"

text \<open>
  Python slices clamp their bounds to the sequence and count negative bounds from the end:
  \<open>slice xs i j\<close> is \<^verbatim>\<open>xs[i:j]\<close> and \<open>slice_from xs i\<close> is \<^verbatim>\<open>xs[i:]\<close>.
\<close>

definition slice_index :: "nat \<Rightarrow> int \<Rightarrow> nat" where
  "slice_index n i = (if i < 0 then nat (int n + i) else min n (nat i))"

definition slice :: "'a list \<Rightarrow> int \<Rightarrow> int \<Rightarrow> 'a list" where
  "slice xs i j =
     (let a = slice_index (length xs) i; b = slice_index (length xs) j
      in take (b - a) (drop a xs))"

definition slice_from :: "'a list \<Rightarrow> int \<Rightarrow> 'a list" where
  "slice_from xs i = drop (slice_index (length xs) i) xs"

text \<open>\<^verbatim>\<open>"%d" % n\<close> for an integer \<open>n\<close>.\<close>

fun show_nat :: "nat \<Rightarrow> string" where
  "show_nat n =
     (if n < 10 then [char_of (48 + n)]
      else show_nat (n div 10) @ [char_of (48 + n mod 10)])"

declare show_nat.simps [simp del]

definition show_int :: "int \<Rightarrow> string" where
  "show_int i = (if i < 0 then CHR ''-'' # show_nat (nat (- i)) else show_nat (nat i))"

section \<open>The checksum\<close>

text \<open>
  \<^verbatim>\<open>binascii.crc32(data, value)\<close> is the CRC-32 of zlib: reflected polynomial
  \<open>0xEDB88320\<close>, the running value complemented on entry and on exit, \<open>value\<close> taken
  modulo \<open>2^32\<close> and defaulting to 0. \<open>crc_bit\<close> is the shift for one message bit,
  \<open>crc_byte\<close> the update for one message byte.
\<close>

definition crc_bit :: "32 word \<Rightarrow> 32 word" where
  "crc_bit c = (if bit c 0 then drop_bit 1 c XOR 0xEDB88320 else drop_bit 1 c)"

definition crc_byte :: "32 word \<Rightarrow> byte \<Rightarrow> 32 word" where
  "crc_byte c b = (crc_bit ^^ 8) (c XOR ucast b)"

definition crc32 :: "bytes \<Rightarrow> int \<Rightarrow> int" where
  "crc32 data value = uint (NOT (foldl crc_byte (NOT (word_of_int value)) data))"

section \<open>The frame codec\<close>

text \<open>
  \<^verbatim>\<open>frame_data_func\<close> returns the closure \<^verbatim>\<open>v1(bindata, qrnumber, sizesofar)\<close>; the
  argument \<^verbatim>\<open>qrnumber\<close> is not used by it (the caller passes its float \<^verbatim>\<open>qr_count\<close>).
\<close>

definition v1 :: "bytes \<Rightarrow> real \<Rightarrow> int \<Rightarrow> exn + bytes" where
  "v1 bindata qrnumber sizesofar =
     (case to_bytes_big sizesofar 4 of
        Inl e \<Rightarrow> Inl e
      | Inr off \<Rightarrow>
          let header = [0xb1] @ off;
              crcheader = crc32 header 0
          in (case to_bytes_big (crc32 bindata crcheader) 4 of
                Inl e \<Rightarrow> Inl e
              | Inr footer \<Rightarrow> Inr (header @ bindata @ footer)))"

text \<open>The three messages with which \<^verbatim>\<open>unframe_data\<close> raises \<^verbatim>\<open>UnframeError\<close>.\<close>

definition magic_message :: string where
  "magic_message = ''Binary data without magic number''"

definition crc_message :: string where
  "crc_message = ''CRC Checksum match error''"

definition version_message :: "int \<Rightarrow> string" where
  "version_message version = ''Unrecognized frame version: '' @ show_int version"

definition unframe_data :: "bytes \<Rightarrow> exn + (bytes \<times> int)" where
  "unframe_data bindata =
     (case bindata of
        [] \<Rightarrow> Inl IndexError
      | b0 # _ \<Rightarrow>
          if b0 AND 0xb0 \<noteq> 0xb0 then Inl (UnframeError magic_message)
          else
            let version = uint (b0 AND 0xf) in
            if version = 1 then
              let position = from_bytes_big (slice bindata 1 5);
                  crcframe = from_bytes_big (slice_from bindata (- 4));
                  crccalc = crc32 (slice bindata 0 (- 4)) 0
              in if crccalc \<noteq> crcframe then Inl (UnframeError crc_message)
                 else Inr (slice bindata 5 (- 4), position)
            else Inl (UnframeError (version_message version)))"

section \<open>Backup: the chunk loop of \<^verbatim>\<open>run_backup\<close>\<close>

text \<open>
  \<^verbatim>\<open>infile.read(chunksize)\<close> on the rest of the input file, which was opened in binary
  mode: up to \<open>chunksize\<close> bytes; everything that is left when \<open>chunksize\<close> is \<open>-1\<close>;
  \<^verbatim>\<open>ValueError\<close> when it is below \<open>-1\<close>. The result is the bytes read and the rest of
  the file.
\<close>

definition read :: "int \<Rightarrow> bytes \<Rightarrow> exn + (bytes \<times> bytes)" where
  "read n infile =
     (if n < - 1 then Inl ValueError
      else if n = - 1 then Inr (infile, [])
      else Inr (take (nat n) infile, drop (nat n) infile))"

text \<open>
  \<^verbatim>\<open>qr_count = infile_size / chunksize + 1\<close>. In Python 3 \<^verbatim>\<open>/\<close> is true division, so
  \<^verbatim>\<open>qr_count\<close> is a float; it is modelled by the exact quotient, which is the float
  whenever quotient and sum are representable (as for the sizes evaluated below).
  \<open>format_d\<close> is what \<^verbatim>\<open>%d\<close> prints for it in the log lines
  \<^verbatim>\<open>'Total number of QR codes: %d'\<close> and \<^verbatim>\<open>'Exporting QR %d of %d'\<close>: the float
  truncated towards zero.
\<close>

definition qr_count :: "int \<Rightarrow> int \<Rightarrow> exn + real" where
  "qr_count infile_size chunksize =
     (if chunksize = 0 then Inl ZeroDivisionError
      else Inr (real_of_int infile_size / real_of_int chunksize + 1))"

definition format_d :: "real \<Rightarrow> int" where
  "format_d x = (if x < 0 then \<lceil>x\<rceil> else \<lfloor>x\<rfloor>)"

text \<open>
  The \<^verbatim>\<open>while True\<close> loop: read a chunk, stop at the first empty read, frame the chunk
  with the running offset \<^verbatim>\<open>sizesofar\<close>, advance the offset by the bytes actually read.
  The result is the list of frames in the order they are handed on (to the base-85
  encoder, the QR generator and the exporter, which are outside this model).
\<close>

function backup_loop :: "int \<Rightarrow> real \<Rightarrow> bytes \<Rightarrow> int \<Rightarrow> exn + bytes list" where
  "backup_loop chunksize qrc infile sizesofar =
     (case read chunksize infile of
        Inl e \<Rightarrow> Inl e
      | Inr (bindata, rest) \<Rightarrow>
          if bindata = [] then Inr []
          else
            case v1 bindata qrc sizesofar of
              Inl e \<Rightarrow> Inl e
            | Inr frame \<Rightarrow>
                (case backup_loop chunksize qrc rest (sizesofar + int (length bindata)) of
                   Inl e \<Rightarrow> Inl e
                 | Inr frames \<Rightarrow> Inr (frame # frames)))"
  by pat_completeness auto
termination
  by (relation "measure (\<lambda>(c, q, f, s). length f)") (auto simp: read_def split: if_splits)

declare backup_loop.simps [simp del]

text \<open>
  \<^verbatim>\<open>run_backup\<close> on a chunk size and the contents of the input file: the count it logs
  as the total number of QR codes, and the frames it produces.
\<close>

definition run_backup :: "int \<Rightarrow> bytes \<Rightarrow> exn + (int \<times> bytes list)" where
  "run_backup chunksize infile =
     (case qr_count (int (length infile)) chunksize of
        Inl e \<Rightarrow> Inl e
      | Inr qrc \<Rightarrow>
          (case backup_loop chunksize qrc infile 0 of
             Inl e \<Rightarrow> Inl e
           | Inr frames \<Rightarrow> Inr (format_d qrc, frames)))"

section \<open>Restore: the write loop of \<^verbatim>\<open>run_restore\<close>\<close>

text \<open>
  \<^verbatim>\<open>outfile.seek(position); outfile.write(bindata)\<close> on the contents of the output file.
  Writing past the end fills the gap with zero bytes; writing nothing leaves the file as
  it is, wherever the position. \<open>position\<close> comes from \<^verbatim>\<open>int.from_bytes\<close> and is never
  negative.
\<close>

definition write_at :: "bytes \<Rightarrow> int \<Rightarrow> bytes \<Rightarrow> bytes" where
  "write_at outfile position bindata =
     (if bindata = [] then outfile
      else
        let pos = nat position
        in take pos outfile @ replicate (pos - length outfile) 0 @ bindata
             @ drop (pos + length bindata) outfile)"

text \<open>
  The two nested \<^verbatim>\<open>for\<close> loops. An image is represented by the byte strings obtained
  from it (scanner and base-85 decoder are outside this model). There is no
  \<^verbatim>\<open>try\<close> around \<^verbatim>\<open>unframe_data\<close>: an exception leaves both loops, and the \<^verbatim>\<open>with\<close>
  block closes the file with what was written before. The result is the contents of the
  output file and the exception that ended the run, if any.
\<close>

fun restore_codes :: "bytes list \<Rightarrow> bytes \<Rightarrow> bytes \<times> exn option" where
  "restore_codes [] outfile = (outfile, None)"
| "restore_codes (frame # encdatalist) outfile =
     (case unframe_data frame of
        Inl e \<Rightarrow> (outfile, Some e)
      | Inr (bindata, position) \<Rightarrow> restore_codes encdatalist (write_at outfile position bindata))"

fun restore_images :: "bytes list list \<Rightarrow> bytes \<Rightarrow> bytes \<times> exn option" where
  "restore_images [] outfile = (outfile, None)"
| "restore_images (img # importer) outfile =
     (case restore_codes img outfile of
        (outfile', Some e) \<Rightarrow> (outfile', Some e)
      | (outfile', None) \<Rightarrow> restore_images importer outfile')"

definition run_restore :: "bytes list list \<Rightarrow> bytes \<times> exn option" where
  "run_restore importer = restore_images importer []"

section \<open>Vocabulary of the properties\<close>

text \<open>Flipping bit \<open>j\<close> of byte \<open>i\<close> of a byte string.\<close>

definition flip_bit_at :: "nat \<Rightarrow> nat \<Rightarrow> bytes \<Rightarrow> bytes" where
  "flip_bit_at i j bs = bs[i := flip_bit j (bs ! i)]"

text \<open>
  The byte range a decoded chunk \<open>(payload, offset)\<close> writes, and whether the chunk is
  cut out of a given file at its offset; the same for a frame through \<^verbatim>\<open>unframe_data\<close>.
\<close>

definition chunk_range :: "bytes \<times> int \<Rightarrow> nat set" where
  "chunk_range d = {nat (snd d)..<nat (snd d) + length (fst d)}"

definition chunk_of :: "bytes \<Rightarrow> bytes \<times> int \<Rightarrow> bool" where
  "chunk_of file d =
     (0 \<le> snd d \<and> nat (snd d) + length (fst d) \<le> length file
      \<and> take (length (fst d)) (drop (nat (snd d)) file) = fst d)"

definition frame_range :: "bytes \<Rightarrow> nat set" where
  "frame_range frame = (case unframe_data frame of Inl e \<Rightarrow> {} | Inr d \<Rightarrow> chunk_range d)"

definition frame_of :: "bytes \<Rightarrow> bytes \<Rightarrow> bool" where
  "frame_of file frame =
     (case unframe_data frame of Inl e \<Rightarrow> False | Inr d \<Rightarrow> chunk_of file d)"

text \<open>
  An output file agrees with the original on a set of positions: it is no longer than the
  original and holds the original's byte at each of the positions.
\<close>

definition agrees :: "bytes \<Rightarrow> nat set \<Rightarrow> bytes \<Rightarrow> bool" where
  "agrees file S outfile =
     (length outfile \<le> length file \<and> (\<forall>i\<in>S. i < length outfile \<and> outfile ! i = file ! i))"

text \<open>The shift for one message bit can be undone: the top bit tells whether it xor-ed.\<close>

definition crc_bit_inv :: "32 word \<Rightarrow> 32 word" where
  "crc_bit_inv y = (if bit y 31 then push_bit 1 (y XOR 0xEDB88320) + 1 else push_bit 1 y)"

section \<open>Facts about the built-ins\<close>

lemma length_be_digits: "length (be_digits k n) = k"
  by (induction k arbitrary: n) simp_all

lemma word_of_int_mod_256: "word_of_int (k mod 256) = (word_of_int k :: byte)"
  by (simp add: word_of_int_eq_iff take_bit_eq_mod)

lemma be_digits_4:
  "be_digits 4 n =
     [word_of_int (n div 16777216), word_of_int (n div 65536), word_of_int (n div 256),
      word_of_int n]"
proof -
  have "be_digits 4 n = be_digits (Suc (Suc (Suc (Suc 0)))) n"
    by (rule arg_cong [of _ _ "\<lambda>k. be_digits k n"]) simp
  also have "\<dots> = [word_of_int (n div 256 div 256 div 256), word_of_int (n div 256 div 256),
      word_of_int (n div 256), word_of_int n]"
    by (simp add: word_of_int_mod_256)
  also have "n div 256 div 256 div 256 = n div 16777216"
    by (simp add: zdiv_zmult2_eq [symmetric])
  also have "n div 256 div 256 = n div 65536"
    by (simp add: zdiv_zmult2_eq [symmetric])
  finally show ?thesis .
qed

lemma to_bytes_big_4:
  "to_bytes_big n 4 =
     (if n < 0 \<or> 4294967296 \<le> n then Inl OverflowError
      else Inr [word_of_int (n div 16777216), word_of_int (n div 65536),
                word_of_int (n div 256), word_of_int n])"
  by (simp add: to_bytes_big_def be_digits_4)

lemma from_bytes_big_snoc: "from_bytes_big (bs @ [b]) = from_bytes_big bs * 256 + uint b"
  by (simp add: from_bytes_big_def)

lemma from_bytes_big_nonneg: "0 \<le> from_bytes_big bs"
  by (induction bs rule: rev_induct) (simp_all add: from_bytes_big_snoc from_bytes_big_def)

lemma uint_byte_of_int: "uint (word_of_int k :: byte) = k mod 256"
  by (simp add: uint_word_of_int)

lemma from_bytes_be_digits: "from_bytes_big (be_digits k n) = n mod 256 ^ k"
proof (induction k arbitrary: n)
  case 0
  show ?case by (simp add: from_bytes_big_def)
next
  case (Suc k)
  have "from_bytes_big (be_digits (Suc k) n) = (n div 256) mod 256 ^ k * 256 + n mod 256"
    by (simp add: from_bytes_big_snoc Suc.IH uint_byte_of_int)
  also have "\<dots> = n mod 256 ^ Suc k"
    using zmod_zmult2_eq [of "256 ^ k" n 256] by simp
  finally show ?case .
qed

text \<open>The slices \<^verbatim>\<open>unframe_data\<close> takes, on a sequence of at least nine bytes.\<close>

lemma frame_slices:
  assumes "length h = 4" "length t = 4"
  shows "slice (b0 # h @ p @ t) 1 5 = h"
    and "slice_from (b0 # h @ p @ t) (- 4) = t"
    and "slice (b0 # h @ p @ t) 0 (- 4) = b0 # h @ p"
    and "slice (b0 # h @ p @ t) 5 (- 4) = p"
proof -
  let ?f = "b0 # h @ p @ t"
  have len: "length ?f = 9 + length p"
    using assms by simp
  have neg: "slice_index (9 + length p) (- 4) = length (b0 # h @ p)"
    using assms by (simp add: slice_index_def nat_add_distrib)
  have pos: "slice_index (9 + length p) 0 = 0" "slice_index (9 + length p) 1 = 1"
    "slice_index (9 + length p) 5 = 5"
    by (simp_all add: slice_index_def)
  have split: "?f = (b0 # h @ p) @ t"
    by simp
  show "slice ?f 1 5 = h"
    using assms by (simp add: slice_def len pos)
  show "slice_from ?f (- 4) = t"
    unfolding slice_from_def len neg by (subst split) (simp only: drop_append, simp)
  show "slice ?f 0 (- 4) = b0 # h @ p"
    unfolding slice_def len neg pos Let_def by (subst split) (simp only: take_append drop_0, simp)
  show "slice ?f 5 (- 4) = p"
    unfolding slice_def len neg pos Let_def using assms by simp
qed

section \<open>Facts about the checksum\<close>

lemma crc_byte_unfold:
  "crc_byte c b =
     crc_bit (crc_bit (crc_bit (crc_bit (crc_bit (crc_bit (crc_bit (crc_bit (c XOR ucast b))))))))"
  by (simp add: crc_byte_def eval_nat_numeral)

lemma crc32_append: "crc32 (a @ b) v = crc32 b (crc32 a v)"
  by (simp add: crc32_def)

lemma crc32_range: "0 \<le> crc32 d v \<and> crc32 d v < 4294967296"
proof -
  have "uint w < 2 ^ 32" for w :: "32 word"
    using uint_bounded [of w] by simp
  then show ?thesis by (simp add: crc32_def)
qed

text \<open>
  The model gives the check value \<open>0xCBF43926\<close> of CRC-32 on the ASCII digits
  \<open>123456789\<close>, as \<^verbatim>\<open>binascii.crc32(b'123456789')\<close> does.
\<close>

lemma crc32_check_value: "crc32 [49, 50, 51, 52, 53, 54, 55, 56, 57] 0 = 0xCBF43926"
  by (simp add: crc32_def crc_byte_unfold crc_bit_def)

text \<open>Checksums of the concrete byte strings used as examples below.\<close>

lemma crc32_header_0: "crc32 [0xb1, 0, 0, 0, 0] 0 = 3951417017"
  by (simp add: crc32_def crc_byte_unfold crc_bit_def)

lemma crc32_A_chained: "crc32 [65] 3951417017 = 1636765813"
  by (simp add: crc32_def crc_byte_unfold crc_bit_def)

section \<open>Encoding and decoding one frame\<close>

lemma v1_frame:
  assumes "0 \<le> off" "off < 4294967296"
  shows "v1 p q off =
    Inr (0xb1 # be_digits 4 off @ p @ be_digits 4 (crc32 (0xb1 # be_digits 4 off @ p) 0))"
proof -
  have "to_bytes_big off 4 = Inr (be_digits 4 off)"
    using assms by (simp add: to_bytes_big_def)
  moreover have "to_bytes_big (crc32 p c) 4 = Inr (be_digits 4 (crc32 p c))" for c
    using crc32_range [of p c] by (simp add: to_bytes_big_def)
  moreover have "crc32 p (crc32 (0xb1 # be_digits 4 off) 0) = crc32 (0xb1 # be_digits 4 off @ p) 0"
    using crc32_append [of "0xb1 # be_digits 4 off" p 0] by simp
  ultimately show ?thesis
    by (simp add: v1_def Let_def)
qed

lemma unframe_data_frame:
  assumes "length h = 4" "length t = 4" "b0 AND 0xb0 = 0xb0" "uint (b0 AND 0xf) = 1"
  shows "unframe_data (b0 # h @ p @ t) =
    (if crc32 (b0 # h @ p) 0 \<noteq> from_bytes_big t then Inl (UnframeError crc_message)
     else Inr (p, from_bytes_big h))"
  using assms by (simp add: unframe_data_def frame_slices Let_def)

lemma unframe_v1:
  assumes "0 \<le> off" "off < 4294967296"
  shows "\<exists>frame. v1 p q off = Inr frame \<and> unframe_data frame = Inr (p, off)"
proof -
  let ?h = "be_digits 4 off"
  let ?t = "be_digits 4 (crc32 (0xb1 # ?h @ p) 0)"
  have "from_bytes_big ?t = crc32 (0xb1 # ?h @ p) 0"
    using crc32_range [of "0xb1 # ?h @ p" 0] by (simp add: from_bytes_be_digits)
  moreover have "from_bytes_big ?h = off"
    using assms by (simp add: from_bytes_be_digits)
  moreover have "(0xb1 :: byte) AND 0xb0 = 0xb0" "uint ((0xb1 :: byte) AND 0xf) = 1"
    by simp_all
  ultimately have "unframe_data (0xb1 # ?h @ p @ ?t) = Inr (p, off)"
    by (simp add: unframe_data_frame length_be_digits)
  then show ?thesis
    using v1_frame [OF assms] by simp
qed

lemma v1_A: "v1 [65] q 0 = Inr [177, 0, 0, 0, 0, 65, 97, 143, 16, 117]"
  by (simp add: v1_def to_bytes_big_4 Let_def crc32_header_0 crc32_A_chained)

text \<open>
  C1 (round trip). For every payload, the empty one included, and every offset in
  \<open>[0, 2^32)\<close>, \<^verbatim>\<open>v1\<close> returns a frame and \<^verbatim>\<open>unframe_data\<close> of that frame returns
  exactly the payload and the offset.
\<close>

theorem unframe_data_v1_roundtrip:
  assumes "0 \<le> sizesofar" and "sizesofar < 2 ^ 32"
  shows "\<exists>frame. v1 bindata qrnumber sizesofar = Inr frame
           \<and> unframe_data frame = Inr (bindata, sizesofar)"
  using assms unframe_v1 [of sizesofar bindata qrnumber] by simp

theorem unframe_data_v1_roundtrip_witness:
  "v1 [65] 2 0 = Inr [177, 0, 0, 0, 0, 65, 97, 143, 16, 117]
     \<and> unframe_data [177, 0, 0, 0, 0, 65, 97, 143, 16, 117] = Inr ([65], 0)"
proof -
  have "\<exists>frame. v1 [65] 2 0 = Inr frame \<and> unframe_data frame = Inr ([65], 0)"
    using unframe_data_v1_roundtrip [of 0 "[65]" 2] by simp
  then show ?thesis
    by (simp add: v1_A)
qed

text \<open>
  C7 (chained and one-pass checksum agree). The checksum \<^verbatim>\<open>v1\<close> computes, the CRC of the
  header continued over the payload, is the checksum \<^verbatim>\<open>unframe_data\<close> recomputes in one
  pass over header followed by payload.
\<close>

theorem crc32_chained_eq_one_pass:
  "crc32 bindata (crc32 header 0) = crc32 (header @ bindata) 0"
  by (simp add: crc32_def)

text \<open>
  C9 (no silent truncation of the offset). For an offset below 0 or at least \<open>2^32\<close> the
  conversion \<^verbatim>\<open>sizesofar.to_bytes(4, 'big')\<close> raises \<^verbatim>\<open>OverflowError\<close>, so \<^verbatim>\<open>v1\<close> returns
  no frame at all.
\<close>

theorem v1_offset_out_of_range:
  assumes "sizesofar < 0 \<or> 2 ^ 32 \<le> sizesofar"
  shows "v1 bindata qrnumber sizesofar = Inl OverflowError"
  using assms by (auto simp add: v1_def to_bytes_big_def)

theorem v1_offset_out_of_range_witness:
  "v1 [65] 2 4294967296 = Inl OverflowError \<and> v1 [65] 2 (- 1) = Inl OverflowError"
  using v1_offset_out_of_range [of 4294967296 "[65]" 2]
    v1_offset_out_of_range [of "- 1" "[65]" 2]
  by simp

section \<open>More concrete frames\<close>

lemma crc32_header_4: "crc32 [0xb1, 0, 0, 0, 4] 0 = 3974632096"
  by (simp add: crc32_def crc_byte_unfold crc_bit_def)

lemma crc32_ABCD_chained: "crc32 [65, 66, 67, 68] 3951417017 = 1128611785"
  by (simp add: crc32_def crc_byte_unfold crc_bit_def)

lemma crc32_EFGH_chained: "crc32 [69, 70, 71, 72] 3974632096 = 1400123309"
  by (simp add: crc32_def crc_byte_unfold crc_bit_def)

lemma crc32_AB_chained: "crc32 [65, 66] 3951417017 = 1792984466"
  by (simp add: crc32_def crc_byte_unfold crc_bit_def)

lemma crc32_f1: "crc32 [0xf1, 0, 0, 0, 0] 0 = 3010891504"
  by (simp add: crc32_def crc_byte_unfold crc_bit_def)

lemma crc32_b1: "crc32 [177] 0 = 1852075159"
  by (simp add: crc32_def crc_byte_unfold crc_bit_def)

lemma v1_ABCD: "v1 [65, 66, 67, 68] q 0 = Inr [177, 0, 0, 0, 0, 65, 66, 67, 68, 67, 69, 63, 201]"
  by (simp add: v1_def to_bytes_big_4 Let_def crc32_header_0 crc32_ABCD_chained)

lemma v1_EFGH: "v1 [69, 70, 71, 72] q 4 = Inr [177, 0, 0, 0, 4, 69, 70, 71, 72, 83, 116, 47, 173]"
  by (simp add: v1_def to_bytes_big_4 Let_def crc32_header_4 crc32_EFGH_chained)

lemma v1_AB: "v1 [65, 66] q 0 = Inr [177, 0, 0, 0, 0, 65, 66, 106, 222, 197, 146]"
  by (simp add: v1_def to_bytes_big_4 Let_def crc32_header_0 crc32_AB_chained)

lemma unframe_data_A: "unframe_data [177, 0, 0, 0, 0, 65, 97, 143, 16, 117] = Inr ([65], 0)"
  using unframe_v1 [of 0 "[65]" 0] by (simp add: v1_A)

lemma unframe_data_bad: "unframe_data [0] = Inl (UnframeError magic_message)"
  by (simp add: unframe_data_def)

lemma backup_loop_ABCDEFGH:
  "backup_loop 4 q [65, 66, 67, 68, 69, 70, 71, 72] 0 =
     Inr [[177, 0, 0, 0, 0, 65, 66, 67, 68, 67, 69, 63, 201],
          [177, 0, 0, 0, 4, 69, 70, 71, 72, 83, 116, 47, 173]]"
proof -
  have "backup_loop 4 q [] 8 = Inr []"
    by (subst backup_loop.simps) (simp add: read_def)
  then have "backup_loop 4 q [69, 70, 71, 72] 4 =
      Inr [[177, 0, 0, 0, 4, 69, 70, 71, 72, 83, 116, 47, 173]]"
    by (subst backup_loop.simps) (simp add: read_def v1_EFGH)
  then show ?thesis
    by (subst backup_loop.simps) (simp add: read_def v1_ABCD)
qed

lemma run_backup_ABCDEFGH:
  "run_backup 4 [65, 66, 67, 68, 69, 70, 71, 72] =
     Inr (3, [[177, 0, 0, 0, 0, 65, 66, 67, 68, 67, 69, 63, 201],
              [177, 0, 0, 0, 4, 69, 70, 71, 72, 83, 116, 47, 173]])"
  by (simp add: run_backup_def qr_count_def format_d_def backup_loop_ABCDEFGH)

section \<open>What \<^verbatim>\<open>unframe_data\<close> accepts and rejects\<close>

text \<open>
  C10 (no upper bound on the payload). \<^verbatim>\<open>unframe_data\<close> knows no chunk size: whatever
  chunk size is configured, a frame whose payload is longer than it still decodes to that
  payload and its offset.
\<close>

theorem unframe_data_no_payload_bound:
  assumes "chunksize < int (length bindata)"
    and "0 \<le> sizesofar" and "sizesofar < 2 ^ 32"
  shows "\<exists>frame. v1 bindata qrnumber sizesofar = Inr frame
           \<and> unframe_data frame = Inr (bindata, sizesofar)"
  using assms(2,3) unframe_v1 [of sizesofar bindata qrnumber] by simp

theorem unframe_data_no_payload_bound_witness:
  "v1 [65, 66] 2 0 = Inr [177, 0, 0, 0, 0, 65, 66, 106, 222, 197, 146]
     \<and> unframe_data [177, 0, 0, 0, 0, 65, 66, 106, 222, 197, 146] = Inr ([65, 66], 0)"
proof -
  have "\<exists>frame. v1 [65, 66] 2 0 = Inr frame \<and> unframe_data frame = Inr ([65, 66], 0)"
    using unframe_data_no_payload_bound [of 1 "[65, 66]" 0 2] by simp
  then show ?thesis
    by (simp add: v1_AB)
qed

text \<open>
  C2 (magic rejection). The magic test is \<^verbatim>\<open>(bindata[0] & 0xb0) != 0xb0\<close>: it looks at
  bits 7, 5 and 4 only, so a leading byte with high nibble \<open>0xF\<close> passes it. The nine
  bytes below start with \<open>0xF1\<close> and end with the CRC-32 of the first five; they are
  decoded as an empty payload at offset 0 instead of being rejected.
\<close>

theorem unframe_data_accepts_high_nibble_F:
  "drop_bit 4 (0xf1 :: byte) \<noteq> 0xb
     \<and> unframe_data [0xf1, 0, 0, 0, 0, 179, 118, 142, 240] = Inr ([], 0)"
  by (simp add: unframe_data_def slice_def slice_from_def slice_index_def from_bytes_big_def
        Let_def crc32_f1)

lemma crc32_Nil: "crc32 [] 0 = 0"
  by (simp add: crc32_def)

lemma slice_from_last4: "slice_from xs (- 4) = drop (length xs - 4) xs"
  by (simp add: slice_from_def slice_index_def nat_diff_distrib')

lemma slice_butlast4: "slice xs 0 (- 4) = take (length xs - 4) xs"
  by (simp add: slice_def slice_index_def nat_diff_distrib')

lemma from_bytes_big_pos:
  assumes "b0 \<noteq> 0"
  shows "0 < from_bytes_big (b0 # rest)"
proof -
  have step: "0 < acc \<Longrightarrow> 0 < foldl (\<lambda>acc b. acc * 256 + uint b) acc bs"
    for acc :: int and bs :: bytes
  proof (induction bs arbitrary: acc)
    case Nil
    then show ?case by simp
  next
    case (Cons b bs)
    have "0 < acc * 256 + uint b"
      using Cons.prems by (simp add: add_pos_nonneg)
    then show ?case
      using Cons.IH by simp
  qed
  have "0 < uint b0"
    using assms by (simp add: word_greater_zero_iff [symmetric] word_less_def)
  then show ?thesis
    using step [of "uint b0" rest] by (simp add: from_bytes_big_def)
qed

lemma unframe_data_Cons:
  "unframe_data (b0 # rest) =
     (if b0 AND 0xb0 \<noteq> 0xb0 then Inl (UnframeError magic_message)
      else if uint (b0 AND 0xf) \<noteq> 1
        then Inl (UnframeError (version_message (uint (b0 AND 0xf))))
      else if crc32 (take (length rest - 3) (b0 # rest)) 0
                \<noteq> from_bytes_big (drop (length rest - 3) (b0 # rest))
        then Inl (UnframeError crc_message)
      else Inr (slice (b0 # rest) 5 (- 4), from_bytes_big (slice (b0 # rest) 1 5)))"
  by (simp add: unframe_data_def Let_def slice_from_last4 slice_butlast4)

text \<open>
  C3 (inputs shorter than nine bytes), as the code has it. \<^verbatim>\<open>unframe_data\<close> has no length
  test. A non-empty input of fewer than nine bytes is rejected with \<^verbatim>\<open>UnframeError\<close>:
  with the magic message when the leading byte fails the magic test, with the version
  message when its low nibble is not 1, and otherwise with the checksum message, provided
  the input has fewer than five bytes or its last four bytes are not the CRC-32 of the
  bytes before them.
\<close>

theorem unframe_data_short_input:
  assumes "bindata \<noteq> []" and "length bindata < 9"
    and "length bindata < 5 \<or>
      crc32 (take (length bindata - 4) bindata) 0
        \<noteq> from_bytes_big (drop (length bindata - 4) bindata)"
  shows "unframe_data bindata =
    Inl (UnframeError
      (if hd bindata AND 0xb0 \<noteq> 0xb0 then magic_message
       else if uint (hd bindata AND 0xf) \<noteq> 1 then version_message (uint (hd bindata AND 0xf))
       else crc_message))"
proof -
  obtain b0 rest where b: "bindata = b0 # rest"
    using assms(1) by (cases bindata) auto
  have "crc32 (take (length rest - 3) (b0 # rest)) 0
          \<noteq> from_bytes_big (drop (length rest - 3) (b0 # rest))"
    if magic: "b0 AND 0xb0 = 0xb0"
  proof (cases "length bindata < 5")
    case True
    have "b0 \<noteq> 0"
      using magic by auto
    then have "0 < from_bytes_big (b0 # rest)"
      by (rule from_bytes_big_pos)
    moreover have "length rest - 3 = 0"
      using True b by simp
    ultimately show ?thesis
      by (simp add: crc32_Nil)
  next
    case False
    then have "length bindata - 4 = length rest - 3"
      using b by simp
    then show ?thesis
      using assms(3) False b by simp
  qed
  then show ?thesis
    unfolding b unframe_data_Cons by simp
qed

theorem unframe_data_short_input_witness:
  "unframe_data [177] = Inl (UnframeError crc_message)
     \<and> unframe_data [177, 0, 0, 0, 0] = Inl (UnframeError crc_message)"
  using unframe_data_short_input [of "[177]"] unframe_data_short_input [of "[177, 0, 0, 0, 0]"]
  by (simp add: crc32_b1 from_bytes_big_def)

text \<open>
  C3 as stated fails: these five bytes, the byte \<open>0xB1\<close> followed by its own CRC-32, are
  shorter than nine bytes and are decoded without any error, as an empty payload whose
  offset is read from the checksum bytes.
\<close>

theorem unframe_data_accepts_five_bytes:
  "length [177, 110, 100, 108, 151 :: byte] < 9
     \<and> unframe_data [177, 110, 100, 108, 151] = Inr ([], 1852075159)"
  by (simp add: unframe_data_Cons crc32_b1 from_bytes_big_def slice_def slice_index_def)

section \<open>The restore loop and failures\<close>

lemma restore_codes_append:
  "restore_codes (xs @ ys) outfile =
     (case restore_codes xs outfile of
        (outfile', Some e) \<Rightarrow> (outfile', Some e)
      | (outfile', None) \<Rightarrow> restore_codes ys outfile')"
  by (induction xs arbitrary: outfile) (auto split: sum.splits prod.splits option.splits)

lemma restore_images_append:
  "restore_images (xs @ ys) outfile =
     (case restore_images xs outfile of
        (outfile', Some e) \<Rightarrow> (outfile', Some e)
      | (outfile', None) \<Rightarrow> restore_images ys outfile')"
  by (induction xs arbitrary: outfile) (auto split: sum.splits prod.splits option.splits)

text \<open>
  C4 (a decode failure during restore), as the code has it. \<^verbatim>\<open>run_restore\<close> does not
  catch \<^verbatim>\<open>UnframeError\<close>: when the strings before a failing one were all written, the
  run ends at the failing string with its exception; the output file holds what was
  written before, and the strings and images after it are not processed.
\<close>

theorem run_restore_aborts_on_failure:
  assumes "run_restore (imgs1 @ [codes1]) = (outfile', None)"
    and "unframe_data frame = Inl e"
  shows "run_restore (imgs1 @ (codes1 @ frame # codes2) # imgs2) = (outfile', Some e)"
proof -
  obtain mid where mid: "restore_images imgs1 [] = (mid, None)"
    and c1: "restore_codes codes1 mid = (outfile', None)"
    using assms(1)
    by (auto simp: run_restore_def restore_images_append split: prod.splits option.splits)
  have "restore_codes (codes1 @ frame # codes2) mid = (outfile', Some e)"
    using c1 assms(2) by (simp add: restore_codes_append)
  then have "restore_images ((codes1 @ frame # codes2) # imgs2) mid = (outfile', Some e)"
    by simp
  then show ?thesis
    using mid by (simp add: run_restore_def restore_images_append)
qed

theorem run_restore_aborts_on_failure_witness:
  "run_restore ([[[177, 0, 0, 0, 0, 65, 97, 143, 16, 117]]]
      @ ([] @ [0] # [[177, 0, 0, 0, 0, 65, 97, 143, 16, 117]])
      # [[[177, 0, 0, 0, 0, 65, 97, 143, 16, 117]]])
    = ([65], Some (UnframeError magic_message))"
proof -
  have "run_restore ([[[177, 0, 0, 0, 0, 65, 97, 143, 16, 117]]] @ [[]]) = ([65], None)"
    by (simp add: run_restore_def unframe_data_A write_at_def)
  then show ?thesis
    using unframe_data_bad by (rule run_restore_aborts_on_failure)
qed

text \<open>
  C4 as stated fails: with a string that is no frame ahead of a good frame in the same
  image and of a good frame in the next image, the run ends with the exception and
  an empty output file, where the two good frames alone give the file \<open>A\<close>.
\<close>

theorem run_restore_skips_nothing:
  "run_restore [[[0], [177, 0, 0, 0, 0, 65, 97, 143, 16, 117]],
                [[177, 0, 0, 0, 0, 65, 97, 143, 16, 117]]]
     = ([], Some (UnframeError magic_message))
   \<and> run_restore [[[177, 0, 0, 0, 0, 65, 97, 143, 16, 117]],
                  [[177, 0, 0, 0, 0, 65, 97, 143, 16, 117]]] = ([65], None)"
  by (simp add: run_restore_def unframe_data_A unframe_data_bad write_at_def)

section \<open>The reported number of QR codes\<close>

text \<open>
  C5 (reported chunk count). For the eight bytes \<open>ABCDEFGH\<close> and chunk size 4 the loop
  produces two frames, and \<open>\<lceil>8 / 4\<rceil> = 2\<close>, but \<^verbatim>\<open>infile_size / chunksize + 1\<close> is
  \<open>3.0\<close> and the run logs 3 as the total number of QR codes: the count is one too many
  whenever the chunk size divides the file size.
\<close>

theorem run_backup_count_off_by_one:
  "run_backup 4 [65, 66, 67, 68, 69, 70, 71, 72] =
     Inr (3, [[177, 0, 0, 0, 0, 65, 66, 67, 68, 67, 69, 63, 201],
              [177, 0, 0, 0, 4, 69, 70, 71, 72, 83, 116, 47, 173]])
   \<and> \<lceil>real_of_int (int (length [65, 66, 67, 68, 69, 70, 71, 72 :: byte])) / real_of_int 4\<rceil> = 2"
  by (simp add: run_backup_ABCDEFGH)

section \<open>Restoring in any order\<close>

text \<open>Positioned writes, byte by byte.\<close>

lemma write_at_split:
  assumes "p \<noteq> []"
  shows "\<exists>pre. write_at sink off p = pre @ p @ drop (nat off + length p) sink
          \<and> length pre = nat off
          \<and> (\<forall>i<nat off. pre ! i = (if i < length sink then sink ! i else 0))"
proof -
  define pre where "pre = take (nat off) sink @ replicate (nat off - length sink) 0"
  have "write_at sink off p = pre @ p @ drop (nat off + length p) sink"
    using assms by (simp add: write_at_def Let_def pre_def)
  moreover have "length pre = nat off"
    by (simp add: pre_def)
  moreover have "pre ! i = (if i < length sink then sink ! i else 0)" if "i < nat off" for i
    using that by (simp add: pre_def nth_append)
  ultimately show ?thesis
    by blast
qed

lemma length_write_at:
  assumes "p \<noteq> []"
  shows "length (write_at sink off p) = max (length sink) (nat off + length p)"
  using assms by (auto simp: write_at_def Let_def)

lemma nth_write_at:
  assumes "p \<noteq> []" and "i < max (length sink) (nat off + length p)"
  shows "write_at sink off p ! i =
     (if nat off \<le> i \<and> i < nat off + length p then p ! (i - nat off)
      else if i < length sink then sink ! i else 0)"
proof -
  obtain pre where w: "write_at sink off p = pre @ p @ drop (nat off + length p) sink"
    and lp: "length pre = nat off"
    and pre: "\<And>i. i < nat off \<Longrightarrow> pre ! i = (if i < length sink then sink ! i else 0)"
    using write_at_split [OF assms(1), of sink off] by blast
  consider "i < nat off" | "nat off \<le> i" "i < nat off + length p" | "nat off + length p \<le> i"
    by linarith
  then show ?thesis
  proof cases
    case 1
    then show ?thesis
      using pre [OF 1] by (simp add: w nth_append lp)
  next
    case 2
    then have "i - nat off < length p"
      by linarith
    then show ?thesis
      using 2 by (simp add: w nth_append lp)
  next
    case 3
    let ?d = "drop (nat off + length p) sink"
    have sink: "i < length sink"
      using 3 assms(2) by simp
    have "\<not> i < length (pre @ p)"
      using 3 lp by simp
    then have "((pre @ p) @ ?d) ! i = ?d ! (i - length (pre @ p))"
      by (simp only: nth_append if_False)
    also have "\<dots> = sink ! (nat off + length p + (i - length (pre @ p)))"
    proof (rule nth_drop)
      show "nat off + length p \<le> length sink"
        using 3 sink by linarith
    qed
    also have "nat off + length p + (i - length (pre @ p)) = i"
      using 3 lp by simp
    finally have "write_at sink off p ! i = sink ! i"
      by (simp add: w)
    then show ?thesis
      using 3 sink by simp
  qed
qed

lemma chunk_of_nth:
  assumes "chunk_of file (p, off)" and "j < length p"
  shows "p ! j = file ! (nat off + j)"
proof -
  have "nat off \<le> length file"
    using assms(1) by (simp add: chunk_of_def)
  then have "take (length p) (drop (nat off) file) ! j = file ! (nat off + j)"
    using assms(2) by simp
  moreover have "take (length p) (drop (nat off) file) = p"
    using assms(1) by (simp add: chunk_of_def)
  ultimately show ?thesis
    by simp
qed

lemma agrees_write_at:
  assumes "agrees file S sink" and "chunk_of file (p, off)"
  shows "agrees file (S \<union> chunk_range (p, off)) (write_at sink off p)"
proof (cases "p = []")
  case True
  then show ?thesis
    using assms(1) by (simp add: write_at_def chunk_range_def)
next
  case False
  have len: "length (write_at sink off p) = max (length sink) (nat off + length p)"
    using False by (rule length_write_at)
  have bound: "nat off + length p \<le> length file" and sink: "length sink \<le> length file"
    using assms by (simp_all add: chunk_of_def agrees_def)
  have "i < length (write_at sink off p) \<and> write_at sink off p ! i = file ! i"
    if "i \<in> S \<union> chunk_range (p, off)" for i
  proof (cases "nat off \<le> i \<and> i < nat off + length p")
    case True
    then have imax: "i < max (length sink) (nat off + length p)"
      by linarith
    then have "write_at sink off p ! i = p ! (i - nat off)"
      using True by (simp add: nth_write_at [OF False])
    also have "\<dots> = file ! i"
    proof -
      have "i - nat off < length p" and "nat off + (i - nat off) = i"
        using True by linarith+
      then show ?thesis
        using chunk_of_nth [OF assms(2), of "i - nat off"] by simp
    qed
    finally show ?thesis
      using imax by (simp only: len simp_thms)
  next
    case out: False
    then have "i \<in> S"
      using that by (auto simp: chunk_range_def)
    then have i: "i < length sink" "sink ! i = file ! i"
      using assms(1) by (simp_all add: agrees_def)
    have imax: "i < max (length sink) (nat off + length p)"
      using i(1) by linarith
    have "write_at sink off p ! i = sink ! i"
      using i(1) by (simp add: nth_write_at [OF False imax] out)
    then show ?thesis
      using i(2) imax by (simp only: len simp_thms)
  qed
  then show ?thesis
    using len bound sink by (simp add: agrees_def)
qed

lemma agrees_all:
  assumes "agrees file {0..<length file} sink"
  shows "sink = file"
proof (rule nth_equalityI)
  show "length sink = length file"
  proof (cases "file = []")
    case True
    then show ?thesis using assms by (simp add: agrees_def)
  next
    case False
    then have "length file - 1 \<in> {0..<length file}"
      by simp
    then have "length file - 1 < length sink"
      using assms unfolding agrees_def by blast
    moreover have "length sink \<le> length file"
      using assms by (simp add: agrees_def)
    ultimately show ?thesis
      by linarith
  qed
next
  fix i assume "i < length sink"
  then have "i \<in> {0..<length file}"
    using assms by (simp add: agrees_def)
  then show "sink ! i = file ! i"
    using assms unfolding agrees_def by blast
qed

lemma restore_codes_agrees:
  assumes "agrees file S sink" and "\<forall>frame\<in>set codes. frame_of file frame"
  shows "\<exists>sink'. restore_codes codes sink = (sink', None)
           \<and> agrees file (S \<union> (\<Union>frame\<in>set codes. frame_range frame)) sink'"
  using assms
proof (induction codes arbitrary: S sink)
  case Nil
  then show ?case by simp
next
  case (Cons frame codes)
  obtain p off where d: "unframe_data frame = Inr (p, off)" and c: "chunk_of file (p, off)"
    using Cons.prems(2) by (auto simp: frame_of_def split: sum.splits)
  have "agrees file (S \<union> chunk_range (p, off)) (write_at sink off p)"
    using Cons.prems(1) c by (rule agrees_write_at)
  moreover have "\<forall>frame\<in>set codes. frame_of file frame"
    using Cons.prems(2) by simp
  ultimately obtain sink' where
    "restore_codes codes (write_at sink off p) = (sink', None)"
    "agrees file (S \<union> chunk_range (p, off) \<union> (\<Union>frame\<in>set codes. frame_range frame)) sink'"
    using Cons.IH by blast
  moreover have "S \<union> chunk_range (p, off) \<union> (\<Union>frame\<in>set codes. frame_range frame)
      = S \<union> (\<Union>frame\<in>set (frame # codes). frame_range frame)"
    using d by (auto simp: frame_range_def)
  ultimately show ?case
    using d by simp
qed

lemma restore_images_agrees:
  assumes "agrees file S sink" and "\<forall>frame\<in>set (concat imgs). frame_of file frame"
  shows "\<exists>sink'. restore_images imgs sink = (sink', None)
           \<and> agrees file (S \<union> (\<Union>frame\<in>set (concat imgs). frame_range frame)) sink'"
  using assms
proof (induction imgs arbitrary: S sink)
  case Nil
  then show ?case by simp
next
  case (Cons img imgs)
  have "\<forall>frame\<in>set img. frame_of file frame"
    using Cons.prems(2) by simp
  then obtain mid where mid: "restore_codes img sink = (mid, None)"
    and a: "agrees file (S \<union> (\<Union>frame\<in>set img. frame_range frame)) mid"
    using restore_codes_agrees [OF Cons.prems(1)] by blast
  have "\<forall>frame\<in>set (concat imgs). frame_of file frame"
    using Cons.prems(2) by simp
  then obtain sink' where "restore_images imgs mid = (sink', None)"
    "agrees file (S \<union> (\<Union>frame\<in>set img. frame_range frame)
       \<union> (\<Union>frame\<in>set (concat imgs). frame_range frame)) sink'"
    using Cons.IH [OF a] by blast
  moreover have "S \<union> (\<Union>frame\<in>set img. frame_range frame)
       \<union> (\<Union>frame\<in>set (concat imgs). frame_range frame)
     = S \<union> (\<Union>frame\<in>set (concat (img # imgs)). frame_range frame)"
    by auto
  ultimately show ?case
    using mid by simp
qed

text \<open>
  What the chunk loop produces: every frame decodes to a chunk cut out of the input file
  at its offset, and the chunks cover the part of the file the loop was started on.
\<close>

lemma v1_Inr_range:
  assumes "v1 p q s = Inr frame"
  shows "0 \<le> s \<and> s < 4294967296"
  using assms by (auto simp: v1_def to_bytes_big_def split: if_splits)

lemma backup_loop_unfold:
  assumes "0 < c"
  shows "backup_loop c q f s =
     (if f = [] then Inr []
      else case v1 (take (nat c) f) q s of
             Inl e \<Rightarrow> Inl e
           | Inr frame \<Rightarrow>
               (case backup_loop c q (drop (nat c) f) (s + int (length (take (nat c) f))) of
                  Inl e \<Rightarrow> Inl e
                | Inr frames \<Rightarrow> Inr (frame # frames)))"
proof -
  have "read c f = Inr (take (nat c) f, drop (nat c) f)"
    using assms by (simp add: read_def)
  moreover have "take (nat c) f = [] \<longleftrightarrow> f = []"
    using assms by simp
  ultimately show ?thesis
    by (subst backup_loop.simps) (auto split: sum.splits)
qed

lemma backup_loop_frames:
  "0 < c \<Longrightarrow> backup_loop c q f s = Inr frames \<Longrightarrow> 0 \<le> s \<Longrightarrow> file = pre @ f
     \<Longrightarrow> length pre = nat s
     \<Longrightarrow> (\<forall>frame\<in>set frames. frame_of file frame)
         \<and> (\<Union>frame\<in>set frames. frame_range frame) = {nat s..<nat s + length f}"
proof (induction c q f s arbitrary: pre frames rule: backup_loop.induct)
  case (1 c q f s)
  let ?b = "take (nat c) f"
  let ?r = "drop (nat c) f"
  have rd: "read c f = Inr (?b, ?r)"
    using "1.prems"(1) by (simp add: read_def)
  show ?case
  proof (cases "f = []")
    case True
    then have "frames = []"
      using "1.prems"(1,2) by (simp add: backup_loop_unfold)
    then show ?thesis
      using True by simp
  next
    case False
    then have b: "?b \<noteq> []"
      using "1.prems"(1) by simp
    obtain frame frames' where fr: "v1 ?b q s = Inr frame"
      and rest: "backup_loop c q ?r (s + int (length ?b)) = Inr frames'"
      and frames: "frames = frame # frames'"
      using "1.prems"(2) False
      by (auto simp: backup_loop_unfold [OF "1.prems"(1), of q f s] split: sum.splits)
    have range: "0 \<le> s \<and> s < 4294967296"
      using fr by (rule v1_Inr_range)
    have dec: "unframe_data frame = Inr (?b, s)"
      using unframe_v1 [of s ?b q] range fr by simp
    have "take (length ?b) f = ?b"
      by (simp add: min_def)
    moreover have "length ?b \<le> length f"
      by simp
    ultimately have chunk: "chunk_of file (?b, s)"
      using "1.prems"(3,4,5) by (simp add: chunk_of_def del: length_take)
    have "(\<forall>frame\<in>set frames'. frame_of file frame)
         \<and> (\<Union>frame\<in>set frames'. frame_range frame)
             = {nat (s + int (length ?b))..<nat (s + int (length ?b)) + length ?r}"
    proof (rule "1.IH" [OF rd refl b fr])
      show "0 < c" by (rule "1.prems"(1))
      show "backup_loop c q ?r (s + int (length ?b)) = Inr frames'"
        by (rule rest)
      show "0 \<le> s + int (length ?b)" using "1.prems"(3) by simp
      show "file = (pre @ ?b) @ ?r" using "1.prems"(4) by simp
      show "length (pre @ ?b) = nat (s + int (length ?b))"
        using "1.prems"(3,5) by (simp add: nat_add_distrib)
    qed
    moreover have "nat (s + int (length ?b)) = nat s + length ?b"
      using "1.prems"(3) by (simp add: nat_add_distrib)
    moreover have "length ?b + length ?r = length f"
      by simp
    moreover have "frame_range frame = {nat s..<nat s + length ?b}"
      using dec by (simp add: frame_range_def chunk_range_def)
    moreover have "frame_of file frame"
      using dec chunk by (simp add: frame_of_def)
    ultimately show ?thesis
      unfolding frames by (auto simp del: length_take length_drop)
  qed
qed


text \<open>
  C8 (order independence). For a chunk size above 0, let \<^verbatim>\<open>run_backup\<close> succeed on a
  file, splitting it at the offsets \<open>0, C, 2C, \<dots>\<close>. If the strings handed to
  \<^verbatim>\<open>run_restore\<close>, over all images, are the frames of that backup in any order, then
  the restore ends without an exception and the output file, started empty, is
  byte for byte the original file.
\<close>

theorem run_restore_any_order:
  assumes "0 < chunksize"
    and "run_backup chunksize infile = Inr (n, frames)"
    and "mset (concat importer) = mset frames"
  shows "run_restore importer = (infile, None)"
proof -
  obtain qrc where loop: "backup_loop chunksize qrc infile 0 = Inr frames"
    using assms(2) by (auto simp: run_backup_def split: sum.splits)
  have fr: "(\<forall>frame\<in>set frames. frame_of infile frame)
      \<and> (\<Union>frame\<in>set frames. frame_range frame) = {nat 0..<nat 0 + length infile}"
    using assms(1) loop by (rule backup_loop_frames [where pre = "[]"]) simp_all
  have same: "set (concat importer) = set frames"
    using assms(3) by (rule mset_eq_setD)
  have "agrees infile {} []"
    by (simp add: agrees_def)
  moreover have "\<forall>frame\<in>set (concat importer). frame_of infile frame"
    using fr same by simp
  ultimately obtain sink where r: "restore_images importer [] = (sink, None)"
    and a: "agrees infile ({} \<union> (\<Union>frame\<in>set (concat importer). frame_range frame)) sink"
    using restore_images_agrees by blast
  have cover: "{} \<union> (\<Union>frame\<in>set (concat importer). frame_range frame)
      = {0..<length infile}"
    unfolding same using fr by simp
  have "agrees infile {0..<length infile} sink"
    using a unfolding cover .
  then have "sink = infile"
    by (rule agrees_all)
  then show ?thesis
    using r by (simp add: run_restore_def)
qed

theorem run_restore_any_order_witness:
  "run_restore [[[177, 0, 0, 0, 4, 69, 70, 71, 72, 83, 116, 47, 173]],
                [[177, 0, 0, 0, 0, 65, 66, 67, 68, 67, 69, 63, 201]]]
     = ([65, 66, 67, 68, 69, 70, 71, 72], None)"
proof -
  have "mset (concat [[[177, 0, 0, 0, 4, 69, 70, 71, 72, 83, 116, 47, 173]],
                      [[177, 0, 0, 0, 0, 65, 66, 67, 68, 67, 69, 63, 201 :: byte]]])
      = mset [[177, 0, 0, 0, 0, 65, 66, 67, 68, 67, 69, 63, 201],
              [177, 0, 0, 0, 4, 69, 70, 71, 72, 83, 116, 47, 173]]"
    by simp
  moreover have "(0 :: int) < 4"
    by simp
  ultimately show ?thesis
    using run_backup_ABCDEFGH by (rule run_restore_any_order [rotated 2])
qed

section \<open>Corrupted frames\<close>

text \<open>
  The CRC update is injective in the running value and in the message byte, so two
  messages that differ in one byte only never have the same CRC-32.
\<close>

lemma drop_bit_top: "\<not> bit (drop_bit 1 c) 31" for c :: "32 word"
proof
  assume "bit (drop_bit 1 c) 31"
  then have "bit c 32"
    by (simp add: bit_drop_bit_eq)
  then show False
    using bit_imp_le_length [of c 32] by simp
qed

lemma poly_top: "bit (0xEDB88320 :: 32 word) 31"
  by simp

lemma crc_bit_inverse: "crc_bit_inv (crc_bit c) = c"
proof (cases "bit c 0")
  case True
  let ?y = "drop_bit 1 c XOR 0xEDB88320"
  have "take_bit 1 c = 1"
    using True by (simp add: bit_0 mod_2_eq_odd)
  then have c: "push_bit 1 (drop_bit 1 c) + 1 = c"
    using bits_ident [of 1 c] by simp
  have top: "bit ?y 31"
    using drop_bit_top [of c] poly_top by (simp add: bit_xor_iff)
  have undo: "?y XOR 0xEDB88320 = drop_bit 1 c"
    by (simp add: xor.assoc)
  have "crc_bit_inv ?y = push_bit 1 (?y XOR 0xEDB88320) + 1"
    using top by (simp only: crc_bit_inv_def if_True)
  also have "\<dots> = c"
    by (simp only: undo c)
  finally show ?thesis
    using True by (simp only: crc_bit_def if_True)
next
  case False
  then have "take_bit 1 c = 0"
    by (simp add: bit_0 mod_2_eq_odd)
  then have c: "push_bit 1 (drop_bit 1 c) = c"
    using bits_ident [of 1 c] by simp
  have "crc_bit_inv (drop_bit 1 c) = push_bit 1 (drop_bit 1 c)"
    using drop_bit_top [of c] by (simp only: crc_bit_inv_def if_False)
  then show ?thesis
    using False c by (simp only: crc_bit_def if_False)
qed

lemma crc_bit_inj: "crc_bit c = crc_bit d \<Longrightarrow> c = d"
  by (metis crc_bit_inverse)

lemma ucast_byte_inj:
  assumes "(ucast (a :: byte) :: 32 word) = ucast b"
  shows "a = b"
proof -
  have up: "is_up (ucast :: byte \<Rightarrow> 32 word)"
    by (simp add: is_up)
  have "a = ucast (ucast a :: 32 word)"
    using up by (simp add: ucast_up_ucast_id)
  also have "\<dots> = ucast (ucast b :: 32 word)"
    by (simp only: assms)
  also have "\<dots> = b"
    using up by (simp add: ucast_up_ucast_id)
  finally show ?thesis .
qed

lemma xor_right_cancel:
  fixes a b e :: "32 word"
  assumes "a XOR e = b XOR e"
  shows "a = b"
proof -
  have "a = (a XOR e) XOR e"
    by (simp add: xor.assoc)
  also have "\<dots> = (b XOR e) XOR e"
    by (simp only: assms)
  also have "\<dots> = b"
    by (simp add: xor.assoc)
  finally show ?thesis .
qed

lemma xor_left_cancel:
  fixes a b e :: "32 word"
  assumes "e XOR a = e XOR b"
  shows "a = b"
  using assms xor_right_cancel [of a e b] by (simp add: xor.commute)

lemma crc_byte_inj:
  assumes "crc_byte c a = crc_byte d b"
  shows "c XOR ucast a = d XOR ucast b"
proof -
  have "(crc_bit ^^ n) x = (crc_bit ^^ n) y \<Longrightarrow> x = y" for n x y
    by (induction n) (auto dest: crc_bit_inj)
  then show ?thesis
    using assms unfolding crc_byte_def by blast
qed

lemma foldl_crc_byte_inj:
  "foldl crc_byte c bs = foldl crc_byte d bs \<Longrightarrow> c = d"
proof (induction bs arbitrary: c d)
  case Nil
  then show ?case by simp
next
  case (Cons b bs)
  then have "crc_byte c b = crc_byte d b"
    by simp
  then have "c XOR ucast b = d XOR ucast b"
    by (rule crc_byte_inj)
  then show ?case
    by (rule xor_right_cancel)
qed

lemma crc32_one_byte_changed:
  assumes "crc32 (xs @ a # ys) v = crc32 (xs @ b # ys) v"
  shows "a = b"
proof -
  let ?s = "foldl crc_byte (NOT (word_of_int v)) xs"
  have "NOT (foldl crc_byte (crc_byte ?s a) ys) = NOT (foldl crc_byte (crc_byte ?s b) ys)"
    using assms by (simp add: crc32_def word_uint_eq_iff [symmetric])
  then have "foldl crc_byte (crc_byte ?s a) ys = foldl crc_byte (crc_byte ?s b) ys"
    by (simp only: bit.compl_eq_compl_iff)
  then have "crc_byte ?s a = crc_byte ?s b"
    by (rule foldl_crc_byte_inj)
  then have "?s XOR ucast a = ?s XOR ucast b"
    by (rule crc_byte_inj)
  then have "(ucast a :: 32 word) = ucast b"
    by (rule xor_left_cancel)
  then show ?thesis
    by (rule ucast_byte_inj)
qed

lemma unframe_data_corrupt:
  assumes "4 \<le> length body" and "length t = 4"
    and "b0 AND 0xb0 = 0xb0" and "uint (b0 AND 0xf) = 1"
    and "crc32 (b0 # body) 0 \<noteq> from_bytes_big t"
  shows "unframe_data (b0 # body @ t) = Inl (UnframeError crc_message)"
proof -
  have "length (take 4 body) = 4"
    using assms(1) by simp
  then have "unframe_data (b0 # take 4 body @ drop 4 body @ t) =
    (if crc32 (b0 # take 4 body @ drop 4 body) 0 \<noteq> from_bytes_big t
     then Inl (UnframeError crc_message)
     else Inr (drop 4 body, from_bytes_big (take 4 body)))"
    using assms(2,3,4) by (rule unframe_data_frame)
  moreover have "take 4 body @ drop 4 body @ t = body @ t"
    by (simp add: append_assoc [symmetric] del: append_assoc)
  ultimately show ?thesis
    using assms(5) by simp
qed

lemma flip_bit_byte_neq:
  fixes x :: byte
  assumes "j < 8"
  shows "flip_bit j x \<noteq> x"
proof
  assume "flip_bit j x = x"
  then have "bit (flip_bit j x) j = bit x j"
    by simp
  then show False
    using assms by (simp add: bit_flip_bit_iff)
qed

lemma flip_b1:
  assumes "j < 8"
  shows "flip_bit j (0xb1 :: byte) = [0xb0, 0xb3, 0xb5, 0xb9, 0xa1, 0x91, 0xf1, 0x31] ! j"
proof -
  have "j \<in> {0, 1, 2, 3, 4, 5, 6, 7}"
    using assms by auto
  then show ?thesis
    by (auto simp: flip_bit_eq_xor)
qed


text \<open>
  C6 (single bit flips), as the code has it. Flipping one bit of the header or the
  payload of a frame built by \<^verbatim>\<open>v1\<close> always makes \<^verbatim>\<open>unframe_data\<close> raise
  \<^verbatim>\<open>UnframeError\<close>. The message is the checksum one for every bit outside the leading
  byte. Inside the leading byte the checks that come first decide: the magic message for
  bits 7, 5 and 4, the version message for a bit of the low nibble.
\<close>

theorem unframe_data_single_bit_flip:
  assumes "v1 bindata qrnumber sizesofar = Inr frame"
    and "i < 5 + length bindata" and "j < 8"
  shows "\<exists>msg. unframe_data (flip_bit_at i j frame) = Inl (UnframeError msg)
          \<and> (0 < i \<longrightarrow> msg = crc_message)
          \<and> (i = 0 \<and> j \<in> {4, 5, 7} \<longrightarrow> msg = magic_message)
          \<and> (i = 0 \<and> j < 4 \<longrightarrow> msg = version_message (uint (flip_bit j (1 :: byte))))"
proof -
  let ?h = "be_digits 4 sizesofar"
  let ?body = "?h @ bindata"
  let ?t = "be_digits 4 (crc32 (0xb1 # ?body) 0)"
  have "0 \<le> sizesofar \<and> sizesofar < 4294967296"
    using assms(1) by (rule v1_Inr_range)
  then have frame: "frame = 0xb1 # ?body @ ?t"
    using assms(1) v1_frame [of sizesofar bindata qrnumber] by simp
  have t: "length ?t = 4" and body: "length ?body = 4 + length bindata"
    by (simp_all add: length_be_digits)
  have crc: "from_bytes_big ?t = crc32 (0xb1 # ?body) 0"
    using crc32_range [of "0xb1 # ?body" 0] by (simp add: from_bytes_be_digits)
  show ?thesis
  proof (cases i)
    case 0
    have flipped: "flip_bit_at i j frame = flip_bit j 0xb1 # ?body @ ?t"
      using 0 by (simp add: flip_bit_at_def frame)
    have j: "j \<in> {0, 1, 2, 3, 4, 5, 6, 7}"
      using assms(3) by auto
    have six: "unframe_data (0xf1 # ?body @ ?t) = Inl (UnframeError crc_message)"
    proof (rule unframe_data_corrupt)
      show "4 \<le> length ?body" using body by simp
      show "length ?t = 4" by (rule t)
      show "(0xf1 :: byte) AND 0xb0 = 0xb0" by simp
      show "uint ((0xf1 :: byte) AND 0xf) = 1" by simp
      show "crc32 (0xf1 # ?body) 0 \<noteq> from_bytes_big ?t"
      proof
        assume "crc32 (0xf1 # ?body) 0 = from_bytes_big ?t"
        then have "crc32 ([] @ 0xf1 # ?body) 0 = crc32 ([] @ 0xb1 # ?body) 0"
          using crc by simp
        then have "(0xf1 :: byte) = 0xb1"
          by (rule crc32_one_byte_changed)
        then show False by simp
      qed
    qed
    show ?thesis
      using j 0 six unfolding flipped
      by (auto simp: flip_b1 unframe_data_Cons flip_bit_eq_xor simp del: append.simps)
  next
    case (Suc k)
    have k: "k < length ?body"
      using Suc assms(2) body by simp
    let ?x = "?body ! k"
    let ?body' = "take k ?body @ flip_bit j ?x # drop (Suc k) ?body"
    have "flip_bit_at i j frame = 0xb1 # ?body[k := flip_bit j ?x] @ ?t"
      using Suc k by (simp add: flip_bit_at_def frame list_update_append nth_append del: append_assoc)
    then have flipped: "flip_bit_at i j frame = 0xb1 # ?body' @ ?t"
      using k by (simp only: upd_conv_take_nth_drop)
    have "unframe_data (0xb1 # ?body' @ ?t) = Inl (UnframeError crc_message)"
    proof (rule unframe_data_corrupt)
      show "4 \<le> length ?body'" using k body by simp
      show "length ?t = 4" by (rule t)
      show "(0xb1 :: byte) AND 0xb0 = 0xb0" by simp
      show "uint ((0xb1 :: byte) AND 0xf) = 1" by simp
      show "crc32 (0xb1 # ?body') 0 \<noteq> from_bytes_big ?t"
      proof
        assume "crc32 (0xb1 # ?body') 0 = from_bytes_big ?t"
        moreover have "0xb1 # ?body = (0xb1 # take k ?body) @ ?x # drop (Suc k) ?body"
          using id_take_nth_drop [OF k] by simp
        ultimately have "crc32 ((0xb1 # take k ?body) @ flip_bit j ?x # drop (Suc k) ?body) 0
            = crc32 ((0xb1 # take k ?body) @ ?x # drop (Suc k) ?body) 0"
          using crc by simp
        then have "flip_bit j ?x = ?x"
          by (rule crc32_one_byte_changed)
        then show False
          using flip_bit_byte_neq [OF assms(3)] by simp
      qed
    qed
    then show ?thesis
      using Suc flipped by simp
  qed
qed

theorem unframe_data_single_bit_flip_witness:
  "unframe_data (flip_bit_at 5 0 [177, 0, 0, 0, 0, 65, 97, 143, 16, 117])
     = Inl (UnframeError crc_message)
   \<and> unframe_data (flip_bit_at 0 7 [177, 0, 0, 0, 0, 65, 97, 143, 16, 117])
     = Inl (UnframeError magic_message)
   \<and> unframe_data (flip_bit_at 0 0 [177, 0, 0, 0, 0, 65, 97, 143, 16, 117])
     = Inl (UnframeError (version_message 0))"
  using unframe_data_single_bit_flip [where i = 5 and j = 0, OF v1_A]
    unframe_data_single_bit_flip [where i = 0 and j = 7, OF v1_A]
    unframe_data_single_bit_flip [where i = 0 and j = 0, OF v1_A]
  by (auto simp: flip_bit_eq_xor)

text \<open>
  C6 as stated fails: flipping the lowest bit of the leading byte of the frame for the
  payload \<open>A\<close> at offset 0 turns the version into 0, and the frame is rejected with the
  version message, not with the checksum message.
\<close>

theorem unframe_data_version_bit_flip:
  "v1 [65] 2 0 = Inr [177, 0, 0, 0, 0, 65, 97, 143, 16, 117]
   \<and> unframe_data (flip_bit_at 0 0 [177, 0, 0, 0, 0, 65, 97, 143, 16, 117])
       = Inl (UnframeError (version_message 0))
   \<and> version_message 0 \<noteq> crc_message"
  by (simp add: v1_A flip_bit_at_def flip_bit_eq_xor unframe_data_Cons version_message_def
        crc_message_def)

end
